theory Spec2Isabelle
  imports Main "HOL-Library.Word"
begin

section \<open>The libraries the signature engine is written against\<close>

text \<open>
  The class \<open>FrostSignature\<close> computes with the big integers of bn.js, the curve
  secp256k1 of elliptic, and SHA-256 and \<open>randomBytes\<close> of node's crypto module.
  None of the three is part of the repository. What the class uses of them is fixed here
  once: the arithmetic of bn.js as functions on \<open>int\<close>, its hexadecimal text as
  functions on \<open>string\<close>, the group order as a constant, and the hash, the multiples
  of the base point and the random bytes as parameters of the functions that use them.
\<close>

subsection \<open>The group order\<close>

text \<open>\<open>ec.curve.n\<close> for \<open>new elliptic.ec('secp256k1')\<close>, in hexadecimal
  FFFFFFFF FFFFFFFF FFFFFFFF FFFFFFFE BAAEDCE6 AF48A03B BFD25E8C D0364141.\<close>

definition curve_n :: int where
  "curve_n = 115792089237316195423570985008687907852837564279074904382605163141518161494337"

subsection \<open>Arithmetic of bn.js\<close>

text \<open>
  \<open>a.mod(m)\<close> keeps the sign of \<open>a\<close>: bn.js divides the magnitudes and negates the
  remainder of a negative \<open>a\<close>. Only \<open>umod\<close> adds the modulus back.
\<close>

definition bn_mod :: "int \<Rightarrow> int \<Rightarrow> int" where
  "bn_mod a m = (if a < 0 then - ((- a) mod m) else a mod m)"

definition bn_umod :: "int \<Rightarrow> int \<Rightarrow> int" where
  "bn_umod a m = (let r = bn_mod a m in if r < 0 then r + m else r)"

text \<open>
  \<open>a.invm(m)\<close> is \<open>a.egcd(m).a.umod(m)\<close>: \<open>egcd\<close> first replaces a negative
  \<open>a\<close> by \<open>a.umod(m)\<close> and returns a coefficient \<open>A\<close> with \<open>A * a + B * m = gcd\<close>.
  The coefficient is computed here by Euclid's algorithm (\<open>bezw\<close>); reduced by
  \<open>umod\<close> it is the inverse in \<open>[0, m)\<close> whenever one exists, and \<open>0\<close> for
  \<open>a = 0\<close>, where bn.js skips its loop and returns the initial coefficient \<open>0\<close>.
\<close>

definition bn_invm :: "int \<Rightarrow> int \<Rightarrow> int" where
  "bn_invm a m = bn_umod (fst (bezw (nat (bn_umod a m)) (nat m))) m"

subsection \<open>Hexadecimal text\<close>

definition hexChar :: "nat \<Rightarrow> char" where
  "hexChar d = ''0123456789abcdef'' ! d"

fun hexNat :: "nat \<Rightarrow> string" where
  "hexNat k = (if k < 16 then [hexChar k] else hexNat (k div 16) @ [hexChar (k mod 16)])"

declare hexNat.simps [simp del]

text \<open>\<open>BN.prototype.toString('hex')\<close>: no leading zeros, a minus sign for a negative
  number.\<close>

definition toHex :: "int \<Rightarrow> string" where
  "toHex a = (if a < 0 then CHR ''-'' # hexNat (nat (- a)) else hexNat (nat a))"

text \<open>\<open>String.prototype.padStart\<close> with a one-character filler.\<close>

definition padStart :: "nat \<Rightarrow> char \<Rightarrow> string \<Rightarrow> string" where
  "padStart w c str = replicate (w - length str) c @ str"

text \<open>The value of a hexadecimal digit. The strings parsed below are produced by
  \<open>toHex\<close> and \<open>bufferToHex\<close> or are assumed to be such text; any other character
  counts as \<open>0\<close>.\<close>

definition hexVal :: "char \<Rightarrow> nat" where
  "hexVal c =
     (let k = of_char c :: nat in
      if 48 \<le> k \<and> k \<le> 57 then k - 48
      else if 97 \<le> k \<and> k \<le> 102 then k - 87
      else if 65 \<le> k \<and> k \<le> 70 then k - 55
      else 0)"

definition parseHex :: "string \<Rightarrow> nat" where
  "parseHex str = foldl (\<lambda>acc c. 16 * acc + hexVal c) 0 str"

text \<open>\<open>new BN(str, 16)\<close>: an optional minus sign, then the digits.\<close>

definition BN16 :: "string \<Rightarrow> int" where
  "BN16 str = (case str of
       [] \<Rightarrow> 0
     | c # rest \<Rightarrow> if c = CHR ''-'' then - int (parseHex rest) else int (parseHex str))"

text \<open>A buffer of 32 bytes is a 256-bit word, read big-endian.
  \<open>Buffer.prototype.toString('hex')\<close> and \<open>digest('hex')\<close> print two digits a byte,
  64 digits in all.\<close>

type_synonym bytes32 = "256 word"

definition bufferToHex :: "bytes32 \<Rightarrow> string" where
  "bufferToHex b = padStart 64 (CHR ''0'') (hexNat (unat b))"

subsection \<open>Random bytes\<close>

text \<open>
  \<open>randomBytes(32)\<close> reads the next buffer of the random source. The source is the
  list of the buffers it will deliver; a function that draws returns the rest of the list
  with its result. A list that runs out before the function is done stands for a run of
  the random source on which the function has not returned: the result is \<open>None\<close>.
\<close>

type_synonym rng = "bytes32 list"

section \<open>The data of the engine\<close>

text \<open>\<open>{ index, value }\<close>: a private share and a signature share have the same
  shape.\<close>

record share =
  share_index :: int
  share_value :: string

text \<open>\<open>{ x, y }\<close>: the affine coordinates of a point, in hexadecimal.\<close>

record point =
  point_x :: string
  point_y :: string

text \<open>\<open>{ index, x, y }\<close>\<close>

record publicShare =
  pub_index :: int
  pub_x :: string
  pub_y :: string

record keyShares =
  ks_shares :: "share list"
  ks_publicShares :: "publicShare list"
  ks_groupPublicKey :: point
  ks_threshold :: int
  ks_total :: int

text \<open>\<open>{ nonce, commitment: { x, y } }\<close>\<close>

record commitment =
  com_nonce :: string
  com_commitment :: point

text \<open>\<open>{ r, s, v, combined }\<close>\<close>

record signature =
  sig_r :: string
  sig_s :: string
  sig_v :: int
  sig_combined :: string

text \<open>The two errors of \<open>generateKeyShares\<close> and the error of
  \<open>combineSignatureShares\<close>, which carries the numbers of its message
  ``Need \<open>threshold\<close>, got \<open>length\<close>''.\<close>

datatype error =
    ThresholdExceedsParticipants
  | ThresholdBelowOne
  | NotEnoughShares int nat

section \<open>The class FrostSignature\<close>

subsection \<open>Helpers\<close>

text \<open>\<open>_generateRandomPrivateKey\<close>: draw 32 bytes, and draw again while the number
  they spell is not below the group order. The result is the hexadecimal text of the
  buffer.\<close>

fun generateRandomPrivateKey :: "rng \<Rightarrow> (string \<times> rng) option" where
  "generateRandomPrivateKey [] = None"
| "generateRandomPrivateKey (randomBytesBuffer # rest) =
     (let privateKey = bufferToHex randomBytesBuffer in
      if BN16 privateKey \<ge> curve_n then generateRandomPrivateKey rest
      else Some (privateKey, rest))"

text \<open>\<open>_hashMessage\<close> and \<open>_calculateBindingFactor\<close>; \<open>sha256\<close> is the digest of
  \<open>createHash('sha256')\<close>.\<close>

definition hashMessage :: "(string \<Rightarrow> bytes32) \<Rightarrow> string \<Rightarrow> string" where
  "hashMessage sha256 message = bufferToHex (sha256 message)"

definition calculateBindingFactor :: "(string \<Rightarrow> bytes32) \<Rightarrow> string \<Rightarrow> point list \<Rightarrow> string" where
  "calculateBindingFactor sha256 messageHash commitments =
     (let commitmentString = foldl (\<lambda>str c. str @ (point_x c @ point_y c)) [] commitments;
          bindingFactorInput = messageHash @ commitmentString
      in bufferToHex (sha256 bindingFactorInput))"

text \<open>\<open>_calculateLagrangeCoefficients\<close>: the inner loop runs over all positions
  \<open>j\<close> and skips \<open>j = i\<close>.\<close>

definition lagrangeStep :: "int list \<Rightarrow> nat \<Rightarrow> int \<Rightarrow> nat \<Rightarrow> int" where
  "lagrangeStep indices i coeff j =
     (if i \<noteq> j then
        let xi = indices ! i;
            xj = indices ! j;
            num = bn_mod (0 - xj) curve_n;
            denom = bn_mod (xi - xj) curve_n;
            denomInv = bn_invm denom curve_n
        in bn_mod (coeff * num * denomInv) curve_n
      else coeff)"

definition calculateLagrangeCoefficients :: "int list \<Rightarrow> string list" where
  "calculateLagrangeCoefficients indices =
     map (\<lambda>i. toHex (foldl (lagrangeStep indices i) 1 [0 ..< length indices]))
       [0 ..< length indices]"

subsection \<open>Key generation\<close>

text \<open>The first loop of \<open>generateKeyShares\<close>: \<open>t\<close> coefficients, each drawn by
  \<open>_generateRandomPrivateKey\<close> and parsed.\<close>

fun drawCoefficients :: "nat \<Rightarrow> rng \<Rightarrow> (int list \<times> rng) option" where
  "drawCoefficients 0 rs = Some ([], rs)"
| "drawCoefficients (Suc k) rs =
     (case generateRandomPrivateKey rs of
        None \<Rightarrow> None
      | Some (key, rs') \<Rightarrow>
          (case drawCoefficients k rs' of
             None \<Rightarrow> None
           | Some (coefficients, rs'') \<Rightarrow> Some (BN16 key # coefficients, rs'')))"

text \<open>The innermost loop: evaluate the polynomial at \<open>x\<close>, term by term, from
  \<open>j\<close> on.\<close>

fun evaluatePolynomial :: "int list \<Rightarrow> int \<Rightarrow> nat \<Rightarrow> int \<Rightarrow> int" where
  "evaluatePolynomial [] x j share = share"
| "evaluatePolynomial (a # coefficients) x j share =
     (let term = bn_mod (a * x ^ j) curve_n
      in evaluatePolynomial coefficients x (Suc j) (bn_mod (share + term) curve_n))"

definition pointToHex :: "int \<times> int \<Rightarrow> point" where
  "pointToHex p = \<lparr>point_x = toHex (fst p), point_y = toHex (snd p)\<rparr>"

text \<open>\<open>generateKeyShares\<close>. \<open>g_mul k\<close> stands for the coordinates
  \<open>getX()\<close>, \<open>getY()\<close> of \<open>ec.g.mul(k)\<close>. It is a total function here: what
  elliptic does for the point at infinity (a multiple \<open>k\<close> of the group order, \<open>0\<close>
  among them), which has no coordinates, is left out. \<open>n\<close> and \<open>t\<close> are whole
  numbers.\<close>

definition generateKeyShares ::
  "(int \<Rightarrow> int \<times> int) \<Rightarrow> int \<Rightarrow> int \<Rightarrow> rng \<Rightarrow> (error + keyShares \<times> rng) option" where
  "generateKeyShares g_mul n t rs =
     (if t > n then Some (Inl ThresholdExceedsParticipants)
      else if t < 1 then Some (Inl ThresholdBelowOne)
      else case drawCoefficients (nat t) rs of
        None \<Rightarrow> None
      | Some (coefficients, rs') \<Rightarrow>
          Some (Inr
            (\<lparr>ks_shares = map (\<lambda>i. \<lparr>share_index = i,
                  share_value = toHex (evaluatePolynomial coefficients i 0 0)\<rparr>) [1..n],
              ks_publicShares = map (\<lambda>i.
                  let pubPoint = g_mul (evaluatePolynomial coefficients i 0 0)
                  in \<lparr>pub_index = i, pub_x = toHex (fst pubPoint),
                      pub_y = toHex (snd pubPoint)\<rparr>) [1..n],
              ks_groupPublicKey = pointToHex (g_mul (hd coefficients)),
              ks_threshold = t,
              ks_total = n\<rparr>, rs')))"

subsection \<open>Commitment\<close>

definition generateCommitment ::
  "(int \<Rightarrow> int \<times> int) \<Rightarrow> share \<Rightarrow> rng \<Rightarrow> (commitment \<times> rng) option" where
  "generateCommitment g_mul privateShare rs =
     (case generateRandomPrivateKey rs of
        None \<Rightarrow> None
      | Some (key, rs') \<Rightarrow>
          (let nonce = BN16 key;
               commitment = g_mul nonce
           in Some (\<lparr>com_nonce = toHex nonce, com_commitment = pointToHex commitment\<rparr>, rs')))"

subsection \<open>Signature shares\<close>

definition generateSignatureShare ::
  "(string \<Rightarrow> bytes32) \<Rightarrow> string \<Rightarrow> share \<Rightarrow> string \<Rightarrow> point list \<Rightarrow> 'a \<Rightarrow> share" where
  "generateSignatureShare sha256 message privateShare nonce commitments participants =
     (let messageHash = hashMessage sha256 message;
          privateKeyShare = BN16 (share_value privateShare);
          bindingFactor = calculateBindingFactor sha256 messageHash commitments;
          nonceBN = BN16 nonce;
          c = BN16 bindingFactor;
          signatureShare =
            bn_mod (nonceBN + bn_mod (c * privateKeyShare) curve_n) curve_n
      in \<lparr>share_index = share_index privateShare, share_value = toHex signatureShare\<rparr>)"

subsection \<open>Combination\<close>

text \<open>The loop of \<open>combineSignatureShares\<close>, over the positions of the shares; the
  list of coefficients has one entry for each share.\<close>

definition combineStep :: "int \<Rightarrow> share \<times> string \<Rightarrow> int" where
  "combineStep combinedSignature sl =
     (let share = BN16 (share_value (fst sl));
          lagrange = BN16 (snd sl)
      in bn_mod (combinedSignature + bn_mod (share * lagrange) curve_n) curve_n)"

definition combineLoop :: "share list \<Rightarrow> string list \<Rightarrow> int" where
  "combineLoop signatureShares lagrangeCoefficients =
     foldl combineStep 0 (zip signatureShares lagrangeCoefficients)"

definition combineSignatureShares ::
  "(string \<Rightarrow> bytes32) \<Rightarrow> string \<Rightarrow> share list \<Rightarrow> point list \<Rightarrow> publicShare list \<Rightarrow> int \<Rightarrow> rng
    \<Rightarrow> (error + signature \<times> rng) option" where
  "combineSignatureShares sha256 message signatureShares commitments publicShares threshold rs =
     (if int (length signatureShares) < threshold
      then Some (Inl (NotEnoughShares threshold (length signatureShares)))
      else
        let messageHash = hashMessage sha256 message;
            bindingFactor = calculateBindingFactor sha256 messageHash commitments;
            indices = map share_index signatureShares;
            lagrangeCoefficients = calculateLagrangeCoefficients indices;
            combinedSignature = combineLoop signatureShares lagrangeCoefficients;
            r = padStart 64 (CHR ''0'') (toHex combinedSignature)
        in case generateRandomPrivateKey rs of
             None \<Rightarrow> None
           | Some (key, rs') \<Rightarrow>
               Some (Inr (\<lparr>sig_r = r,
                          sig_s = padStart 64 (CHR ''0'') (toHex (BN16 key)),
                          sig_v = 27,
                          sig_combined = toHex combinedSignature\<rparr>, rs')))"

subsection \<open>Verification\<close>



section \<open>Notions used to state the properties\<close>

text \<open>The numbers that the rejection sampling accepts from a random source, in the order
  in which they are delivered.\<close>

definition accepted :: "rng \<Rightarrow> int list" where
  "accepted rs = map uint (filter (\<lambda>b. uint b < curve_n) rs)"


definition returns :: "(error + 'a) option \<Rightarrow> bool" where
  "returns res = (case res of Some (Inr v) \<Rightarrow> True | _ \<Rightarrow> False)"

text \<open>What a call returns when it returns, and what it leaves of the random source.\<close>

definition result_of :: "(error + 'a \<times> rng) option \<Rightarrow> 'a option" where
  "result_of res = (case res of Some (Inr (v, rs)) \<Rightarrow> Some v | _ \<Rightarrow> None)"

definition source_after :: "(error + 'a \<times> rng) option \<Rightarrow> rng option" where
  "source_after res = (case res of Some (Inr (v, rs)) \<Rightarrow> Some rs | _ \<Rightarrow> None)"

text \<open>Stand-ins for the two parameters, for the places where a theorem is applied to
  concrete inputs. They are not the curve and not SHA-256, and no theorem depends on what
  they compute.\<close>

definition example_g_mul :: "int \<Rightarrow> int \<times> int" where
  "example_g_mul k = (k mod curve_n, (k * k) mod curve_n)"

definition example_sha256 :: "string \<Rightarrow> bytes32" where
  "example_sha256 str = of_nat (length str)"

text \<open>
  Interpolation at 0, in the words of the specification: the sum of the share values,
  each multiplied by its Lagrange coefficient, modulo the group order. The coefficients
  are the ones \<open>_calculateLagrangeCoefficients\<close> computes for the indices of the
  shares.
\<close>

definition interpolateAtZero :: "share list \<Rightarrow> int" where
  "interpolateAtZero sel =
     (let lagrangeCoefficients = calculateLagrangeCoefficients (map share_index sel)
      in (\<Sum>p<length sel. BN16 (share_value (sel ! p)) * BN16 (lagrangeCoefficients ! p))
           mod curve_n)"

text \<open>
  The integers modulo the group order, as a commutative ring, and Lagrange's formula in a
  commutative ring: positions \<open>i\<close> of a finite set \<open>S\<close> carry points \<open>x i\<close>, and
  \<open>u i j\<close> stands for the inverse of \<open>x i - x j\<close>.
\<close>

type_synonym Zq = "115792089237316195423570985008687907852837564279074904382605163141518161494337"

definition lag :: "(nat \<Rightarrow> 'a::comm_ring_1) \<Rightarrow> (nat \<Rightarrow> nat \<Rightarrow> 'a) \<Rightarrow> nat set \<Rightarrow> nat \<Rightarrow> 'a" where
  "lag x u S i = (\<Prod>j\<in>S - {i}. (- x j) * u i j)"

definition inverses :: "(nat \<Rightarrow> 'a::comm_ring_1) \<Rightarrow> (nat \<Rightarrow> nat \<Rightarrow> 'a) \<Rightarrow> nat set \<Rightarrow> bool" where
  "inverses x u S = (\<forall>i\<in>S. \<forall>j\<in>S. i \<noteq> j \<longrightarrow> (x i - x j) * u i j = 1)"

definition interp :: "(nat \<Rightarrow> 'a::comm_ring_1) \<Rightarrow> (nat \<Rightarrow> nat \<Rightarrow> 'a) \<Rightarrow> nat set \<Rightarrow> (nat \<Rightarrow> 'a) \<Rightarrow> 'a" where
  "interp x u S g = (\<Sum>i\<in>S. g i * lag x u S i)"

section \<open>Hexadecimal text and numbers\<close>

lemma hexVal_hexChar: "d < 16 \<Longrightarrow> hexVal (hexChar d) = d"
proof -
  assume "d < 16"
  then have "d = 0 \<or> d = 1 \<or> d = 2 \<or> d = 3 \<or> d = 4 \<or> d = 5 \<or> d = 6 \<or> d = 7 \<or> d = 8
      \<or> d = 9 \<or> d = 10 \<or> d = 11 \<or> d = 12 \<or> d = 13 \<or> d = 14 \<or> d = 15"
    by arith
  then show ?thesis
    by (elim disjE) (simp_all add: hexVal_def hexChar_def)
qed

lemma hexChar_not_minus: "d < 16 \<Longrightarrow> hexChar d \<noteq> CHR ''-''"
proof -
  assume "d < 16"
  then have "d = 0 \<or> d = 1 \<or> d = 2 \<or> d = 3 \<or> d = 4 \<or> d = 5 \<or> d = 6 \<or> d = 7 \<or> d = 8
      \<or> d = 9 \<or> d = 10 \<or> d = 11 \<or> d = 12 \<or> d = 13 \<or> d = 14 \<or> d = 15"
    by arith
  then show ?thesis
    by (elim disjE) (simp_all add: hexChar_def)
qed

lemma parseHex_snoc: "parseHex (str @ [c]) = 16 * parseHex str + hexVal c"
  by (simp add: parseHex_def)

lemma parseHex_hexNat: "parseHex (hexNat k) = k"
proof (induction k rule: hexNat.induct)
  case (1 k)
  show ?case
  proof (cases "k < 16")
    case True
    then show ?thesis
      by (subst hexNat.simps) (simp add: parseHex_def hexVal_hexChar)
  next
    case False
    then have "parseHex (hexNat (k div 16)) = k div 16" using 1 by simp
    with False show ?thesis
      by (subst hexNat.simps) (simp add: parseHex_snoc hexVal_hexChar)
  qed
qed

lemma hexNat_hd: "\<exists>c cs. hexNat k = c # cs \<and> c \<noteq> CHR ''-''"
proof (induction k rule: hexNat.induct)
  case (1 k)
  show ?case
  proof (cases "k < 16")
    case True
    then show ?thesis
      by (subst hexNat.simps) (simp add: hexChar_not_minus)
  next
    case False
    then obtain c cs where "hexNat (k div 16) = c # cs" "c \<noteq> CHR ''-''" using 1 by blast
    with False show ?thesis
      by (subst hexNat.simps) simp
  qed
qed

lemma BN16_hexNat: "BN16 (hexNat k) = int k"
proof -
  obtain c cs where h: "hexNat k = c # cs" "c \<noteq> CHR ''-''" using hexNat_hd by blast
  have "BN16 (hexNat k) = int (parseHex (hexNat k))"
    unfolding BN16_def h using h(2) by simp
  then show ?thesis by (simp add: parseHex_hexNat)
qed

lemma BN16_toHex: "BN16 (toHex a) = a"
proof (cases "a < 0")
  case True
  then show ?thesis by (simp add: toHex_def BN16_def parseHex_hexNat)
next
  case False
  then show ?thesis by (simp add: toHex_def BN16_hexNat)
qed

lemma parseHex_zeros: "parseHex (replicate z (CHR ''0'') @ str) = parseHex str"
proof -
  have "foldl (\<lambda>acc c. 16 * acc + hexVal c) 0 (replicate z (CHR ''0'')) = 0"
    by (induction z) (simp_all add: hexVal_def)
  then show ?thesis by (simp add: parseHex_def)
qed

lemma BN16_padStart_hexNat: "BN16 (padStart w (CHR ''0'') (hexNat k)) = int k"
proof -
  obtain c cs where h: "hexNat k = c # cs" "c \<noteq> CHR ''-''" using hexNat_hd by blast
  define z where "z = w - length (hexNat k)"
  have "BN16 (replicate z (CHR ''0'') @ hexNat k) = int (parseHex (replicate z (CHR ''0'') @ hexNat k))"
    using h by (cases z) (simp_all add: BN16_def)
  then show ?thesis by (simp add: padStart_def z_def parseHex_zeros parseHex_hexNat)
qed

lemma BN16_bufferToHex: "BN16 (bufferToHex b) = uint b"
  by (simp add: bufferToHex_def BN16_padStart_hexNat)

lemma BN16_padStart_toHex:
  "0 \<le> a \<Longrightarrow> BN16 (padStart w (CHR ''0'') (toHex a)) = a"
proof -
  assume "0 \<le> a"
  then have "toHex a = hexNat (nat a)" by (simp add: toHex_def)
  then have "BN16 (padStart w (CHR ''0'') (toHex a)) = int (nat a)"
    by (simp only: BN16_padStart_hexNat)
  with \<open>0 \<le> a\<close> show ?thesis by simp
qed

lemma pad_9_7: "padStart 64 (CHR ''0'') (toHex 9) \<noteq> padStart 64 (CHR ''0'') (toHex 7)"
proof
  assume "padStart 64 (CHR ''0'') (toHex 9) = padStart 64 (CHR ''0'') (toHex 7)"
  then have "BN16 (padStart 64 (CHR ''0'') (toHex 9)) = BN16 (padStart 64 (CHR ''0'') (toHex 7))"
    by (rule arg_cong)
  then show False by (simp add: BN16_padStart_toHex)
qed

lemma bn_mod_nonneg: "0 \<le> a \<Longrightarrow> bn_mod a m = a mod m"
  by (simp add: bn_mod_def)

lemma curve_n_pos: "0 < curve_n"
  by (simp add: curve_n_def)

lemma bn_mod_small: "\<bar>d\<bar> < curve_n \<Longrightarrow> bn_mod d curve_n = d"
  by (simp add: bn_mod_def)

section \<open>Rejection sampling\<close>

lemma generateRandomPrivateKey_Cons:
  "generateRandomPrivateKey (b # rest) =
     (if curve_n \<le> uint b then generateRandomPrivateKey rest else Some (bufferToHex b, rest))"
  by (simp add: BN16_bufferToHex)

lemma generateRandomPrivateKey_range:
  "generateRandomPrivateKey rs = Some (key, rs') \<Longrightarrow> 0 \<le> BN16 key \<and> BN16 key < curve_n"
proof (induction rs)
  case Nil
  then show ?case by simp
next
  case (Cons b rs)
  then show ?case
    by (auto simp: generateRandomPrivateKey_Cons BN16_bufferToHex simp del: generateRandomPrivateKey.simps split: if_splits)
qed

lemma generateRandomPrivateKey_accepted:
  "accepted rs \<noteq> [] \<Longrightarrow>
     \<exists>key rs'. generateRandomPrivateKey rs = Some (key, rs') \<and> BN16 key = hd (accepted rs)
        \<and> accepted rs' = tl (accepted rs)"
proof (induction rs)
  case Nil
  then show ?case by (simp add: accepted_def)
next
  case (Cons b rs)
  show ?case
  proof (cases "curve_n \<le> uint b")
    case True
    then have "accepted (b # rs) = accepted rs" by (simp add: accepted_def)
    with Cons True show ?thesis
      by (simp add: generateRandomPrivateKey_Cons del: generateRandomPrivateKey.simps)
  next
    case False
    then have "accepted (b # rs) = uint b # accepted rs" by (simp add: accepted_def)
    with False show ?thesis
      by (simp add: generateRandomPrivateKey_Cons BN16_bufferToHex del: generateRandomPrivateKey.simps)
  qed
qed

lemma generateRandomPrivateKey_None:
  "accepted rs = [] \<Longrightarrow> generateRandomPrivateKey rs = None"
proof (induction rs)
  case Nil
  then show ?case by simp
next
  case (Cons b rs)
  then show ?case
    by (auto simp: accepted_def generateRandomPrivateKey_Cons simp del: generateRandomPrivateKey.simps split: if_splits)
qed


lemma drawCoefficients_range:
  "drawCoefficients k rs = Some (a, rs') \<Longrightarrow>
     length a = k \<and> (\<forall>c\<in>set a. 0 \<le> c \<and> c < curve_n)"
proof (induction k arbitrary: rs a rs')
  case 0
  then show ?case by simp
next
  case (Suc k)
  from Suc.prems obtain key rs1 cs where
    g: "generateRandomPrivateKey rs = Some (key, rs1)" and
    d: "drawCoefficients k rs1 = Some (cs, rs')" and
    a: "a = BN16 key # cs"
    by (auto split: option.splits)
  from generateRandomPrivateKey_range [OF g] Suc.IH [OF d] a show ?case by simp
qed





text \<open>
  Claim C8. The rejection sampling of \<open>_generateRandomPrivateKey\<close> is claimed to
  return only numbers from \<open>1\<close> to \<open>curve_n - 1\<close>. The loop discards a buffer
  that spells a number not below \<open>curve_n\<close> and nothing else (see
  \<open>generateRandomPrivateKey_range\<close> for the two bounds that hold): the buffer of 32
  zero bytes is returned, and it spells \<open>0\<close>.
\<close>

theorem generateRandomPrivateKey_accepts_zero:
  "generateRandomPrivateKey (0 # rest) = Some (bufferToHex 0, rest) \<and>
   BN16 (bufferToHex 0) = 0 \<and>
   bufferToHex 0 = ''0000000000000000000000000000000000000000000000000000000000000000''"
proof -
  have "bufferToHex 0 = ''0000000000000000000000000000000000000000000000000000000000000000''"
    by (simp add: bufferToHex_def padStart_def hexNat.simps hexChar_def eval_nat_numeral)
  moreover have "BN16 (bufferToHex 0) = 0"
    by (simp add: BN16_bufferToHex)
  moreover have "generateRandomPrivateKey (0 # rest) = Some (bufferToHex 0, rest)"
    by (simp add: generateRandomPrivateKey_Cons curve_n_def del: generateRandomPrivateKey.simps)
  ultimately show ?thesis by simp
qed

section \<open>Key generation\<close>

lemma evaluatePolynomial_sum:
  "0 \<le> share \<Longrightarrow> share < curve_n \<Longrightarrow> 0 \<le> x \<Longrightarrow> \<forall>c\<in>set coefficients. 0 \<le> c \<Longrightarrow>
   evaluatePolynomial coefficients x j share =
     (share + (\<Sum>k<length coefficients. coefficients ! k * x ^ (j + k))) mod curve_n"
proof (induction coefficients arbitrary: j share)
  case Nil
  then show ?case by simp
next
  case (Cons a cs)
  let ?s = "bn_mod (share + bn_mod (a * x ^ j) curve_n) curve_n"
  have a: "0 \<le> a * x ^ j" using Cons.prems by simp
  then have t: "bn_mod (a * x ^ j) curve_n = (a * x ^ j) mod curve_n"
    by (rule bn_mod_nonneg)
  have "0 \<le> share + (a * x ^ j) mod curve_n"
    using Cons.prems(1) curve_n_pos by (simp add: add_nonneg_nonneg)
  then have s: "?s = (share + a * x ^ j) mod curve_n"
    by (simp add: t bn_mod_nonneg mod_simps)
  have "0 \<le> ?s" "?s < curve_n" using curve_n_pos by (simp_all add: s)
  moreover have "\<forall>c\<in>set cs. 0 \<le> c" using Cons.prems by simp
  ultimately have "evaluatePolynomial cs x (Suc j) ?s =
      (?s + (\<Sum>k<length cs. cs ! k * x ^ (Suc j + k))) mod curve_n"
    using Cons.IH Cons.prems(3) by blast
  also have "\<dots> = (share + a * x ^ j + (\<Sum>k<length cs. cs ! k * x ^ (Suc j + k))) mod curve_n"
    by (simp add: s mod_simps)
  also have "share + a * x ^ j + (\<Sum>k<length cs. cs ! k * x ^ (Suc j + k))
      = share + (\<Sum>k<length (a # cs). (a # cs) ! k * x ^ (j + k))"
    by (simp add: sum.lessThan_Suc_shift del: sum.lessThan_Suc)
  finally show ?case by (simp add: Let_def)
qed

lemma evaluatePolynomial_unfold:
  "evaluatePolynomial (a # coefficients) x j share =
     evaluatePolynomial coefficients x (Suc j)
       (bn_mod (share + bn_mod (a * x ^ j) curve_n) curve_n)"
  by (simp add: Let_def)


lemma generateKeyShares_Inr:
  assumes "generateKeyShares g_mul n t rs = Some (Inr (ks, rs'))"
  shows "1 \<le> t \<and> t \<le> n \<and>
    (\<exists>a. length a = nat t \<and> (\<forall>c\<in>set a. 0 \<le> c \<and> c < curve_n) \<and>
       ks_shares ks = map (\<lambda>i. \<lparr>share_index = i,
           share_value = toHex (evaluatePolynomial a i 0 0)\<rparr>) [1..n] \<and>
       ks_publicShares ks = map (\<lambda>i. \<lparr>pub_index = i,
           pub_x = toHex (fst (g_mul (evaluatePolynomial a i 0 0))),
           pub_y = toHex (snd (g_mul (evaluatePolynomial a i 0 0)))\<rparr>) [1..n] \<and>
       ks_groupPublicKey ks = pointToHex (g_mul (hd a)))"
proof -
  from assms have t: "1 \<le> t" "t \<le> n"
    by (auto simp: generateKeyShares_def split: if_splits)
  with assms obtain a where d: "drawCoefficients (nat t) rs = Some (a, rs')"
    and k: "ks = \<lparr>ks_shares = map (\<lambda>i. \<lparr>share_index = i,
                  share_value = toHex (evaluatePolynomial a i 0 0)\<rparr>) [1..n],
              ks_publicShares = map (\<lambda>i.
                  let pubPoint = g_mul (evaluatePolynomial a i 0 0)
                  in \<lparr>pub_index = i, pub_x = toHex (fst pubPoint),
                      pub_y = toHex (snd pubPoint)\<rparr>) [1..n],
              ks_groupPublicKey = pointToHex (g_mul (hd a)),
              ks_threshold = t,
              ks_total = n\<rparr>"
    by (auto simp: generateKeyShares_def split: option.splits)
  from drawCoefficients_range [OF d] t show ?thesis
    by (intro conjI exI [of _ a]) (simp_all add: k Let_def)
qed

lemma example_keyShares:
  "generateKeyShares g_mul 3 2 [5, 1] = Some (Inr
     (\<lparr>ks_shares = [\<lparr>share_index = 1, share_value = toHex 6\<rparr>,
                    \<lparr>share_index = 2, share_value = toHex 7\<rparr>,
                    \<lparr>share_index = 3, share_value = toHex 8\<rparr>],
       ks_publicShares =
         [\<lparr>pub_index = 1, pub_x = toHex (fst (g_mul 6)), pub_y = toHex (snd (g_mul 6))\<rparr>,
          \<lparr>pub_index = 2, pub_x = toHex (fst (g_mul 7)), pub_y = toHex (snd (g_mul 7))\<rparr>,
          \<lparr>pub_index = 3, pub_x = toHex (fst (g_mul 8)), pub_y = toHex (snd (g_mul 8))\<rparr>],
       ks_groupPublicKey = pointToHex (g_mul 5),
       ks_threshold = 2,
       ks_total = 3\<rparr>, []))"
proof -
  have "drawCoefficients (Suc (Suc 0)) [5, 1] = Some ([5, 1], [])"
    by (simp add: generateRandomPrivateKey_Cons BN16_bufferToHex curve_n_def
        del: generateRandomPrivateKey.simps)
  moreover have "(2::nat) = Suc (Suc 0)" by simp
  ultimately have d: "drawCoefficients 2 [5, 1] = Some ([5, 1], [])" by (simp only:)
  have e: "evaluatePolynomial [5, 1] 1 0 0 = 6" "evaluatePolynomial [5, 1] 2 0 0 = 7"
    "evaluatePolynomial [5, 1] 3 0 0 = 8"
    by (simp_all only: evaluatePolynomial_unfold evaluatePolynomial.simps(1))
       (simp_all add: bn_mod_def curve_n_def)
  show ?thesis
    by (simp add: generateKeyShares_def d Let_def e upto_rec1 del: evaluatePolynomial.simps)
qed






section \<open>Commitments\<close>

text \<open>
  Claim C10. \<open>generateCommitment\<close> does not read its argument: two private shares
  give the same result on the same random source. The commitment it returns holds the
  coordinates of the multiple of the base point by the nonce it returns.
\<close>

theorem generateCommitment_ignores_share:
  "generateCommitment g_mul privateShare rs = generateCommitment g_mul privateShare' rs \<and>
   (\<forall>c rs'. generateCommitment g_mul privateShare rs = Some (c, rs') \<longrightarrow>
      com_commitment c = pointToHex (g_mul (BN16 (com_nonce c))))"
  by (auto simp: generateCommitment_def BN16_toHex Let_def split: option.splits)

theorem generateCommitment_ignores_share_witness:
  "generateCommitment example_g_mul \<lparr>share_index = 1, share_value = ''6''\<rparr> [7] =
     generateCommitment example_g_mul \<lparr>share_index = 2, share_value = ''7''\<rparr> [7] \<and>
   generateCommitment example_g_mul \<lparr>share_index = 1, share_value = ''6''\<rparr> [7] =
     Some (\<lparr>com_nonce = toHex 7, com_commitment = pointToHex (example_g_mul 7)\<rparr>, []) \<and>
   com_commitment \<lparr>com_nonce = toHex 7, com_commitment = pointToHex (example_g_mul 7)\<rparr> =
     pointToHex (example_g_mul (BN16 (com_nonce
       \<lparr>com_nonce = toHex 7, com_commitment = pointToHex (example_g_mul 7)\<rparr>)))"
proof -
  have g: "generateCommitment example_g_mul \<lparr>share_index = 1, share_value = ''6''\<rparr> [7] =
     Some (\<lparr>com_nonce = toHex 7, com_commitment = pointToHex (example_g_mul 7)\<rparr>, [])"
    by (simp add: generateCommitment_def generateRandomPrivateKey_Cons BN16_bufferToHex
        curve_n_def del: generateRandomPrivateKey.simps)
  have "generateCommitment example_g_mul \<lparr>share_index = 1, share_value = ''6''\<rparr> [7] =
     generateCommitment example_g_mul \<lparr>share_index = 2, share_value = ''7''\<rparr> [7]"
    using generateCommitment_ignores_share
      [of example_g_mul "\<lparr>share_index = 1, share_value = ''6''\<rparr>" "[7]"
        "\<lparr>share_index = 2, share_value = ''7''\<rparr>"] by blast
  moreover have "com_commitment \<lparr>com_nonce = toHex 7, com_commitment = pointToHex (example_g_mul 7)\<rparr> =
     pointToHex (example_g_mul (BN16 (com_nonce
       \<lparr>com_nonce = toHex 7, com_commitment = pointToHex (example_g_mul 7)\<rparr>)))"
    using generateCommitment_ignores_share
      [of example_g_mul "\<lparr>share_index = 1, share_value = ''6''\<rparr>" "[7]"
        "\<lparr>share_index = 2, share_value = ''7''\<rparr>"] g by blast
  ultimately show ?thesis using g by blast
qed

section \<open>Signature shares\<close>

lemma commitmentString_concat:
  "foldl (\<lambda>str c. str @ (point_x c @ point_y c)) acc commitments =
     acc @ concat (map (\<lambda>c. point_x c @ point_y c) commitments)"
  by (induction commitments arbitrary: acc) simp_all

text \<open>
  Claim C6. For a nonce and a private share value that are hexadecimal text of numbers
  that are not negative, the signature share has the index of the private share and the
  value \<open>(nonce + c * value) mod curve_n\<close>, where \<open>c\<close> is the digest of the
  hexadecimal digest of the message followed by the coordinates \<open>x\<close>, \<open>y\<close> of the
  commitments in the order of the list.
\<close>

theorem generateSignatureShare_value:
  assumes "0 \<le> BN16 nonce" and "0 \<le> BN16 (share_value privateShare)"
  shows "generateSignatureShare sha256 message privateShare nonce commitments participants =
    \<lparr>share_index = share_index privateShare,
     share_value = toHex
       ((BN16 nonce +
         uint (sha256 (bufferToHex (sha256 message) @
                 concat (map (\<lambda>c. point_x c @ point_y c) commitments))) *
         BN16 (share_value privateShare)) mod curve_n)\<rparr>"
proof -
  let ?c = "uint (sha256 (bufferToHex (sha256 message) @
                 concat (map (\<lambda>c. point_x c @ point_y c) commitments)))"
  have c: "BN16 (calculateBindingFactor sha256 (hashMessage sha256 message) commitments) = ?c"
    by (simp add: calculateBindingFactor_def hashMessage_def BN16_bufferToHex
        commitmentString_concat)
  have p: "0 \<le> ?c * BN16 (share_value privateShare)"
    using assms(2) by simp
  then have m: "bn_mod (?c * BN16 (share_value privateShare)) curve_n =
      (?c * BN16 (share_value privateShare)) mod curve_n"
    by (rule bn_mod_nonneg)
  have "0 \<le> BN16 nonce + (?c * BN16 (share_value privateShare)) mod curve_n"
    using assms(1) curve_n_pos by (simp add: add_nonneg_nonneg)
  then have "bn_mod (BN16 nonce + (?c * BN16 (share_value privateShare)) mod curve_n) curve_n =
     (BN16 nonce + ?c * BN16 (share_value privateShare)) mod curve_n"
    by (simp add: bn_mod_nonneg mod_simps)
  then show ?thesis
    by (simp add: generateSignatureShare_def Let_def c m)
qed

theorem generateSignatureShare_value_witness:
  "0 \<le> BN16 ''a'' \<and> 0 \<le> BN16 (share_value \<lparr>share_index = 2, share_value = ''7''\<rparr>) \<and>
   generateSignatureShare example_sha256 ''test'' \<lparr>share_index = 2, share_value = ''7''\<rparr>
       ''a'' [\<lparr>point_x = ''1'', point_y = ''2''\<rparr>] () =
     \<lparr>share_index = 2, share_value = toHex 472\<rparr>"
proof -
  have h: "0 \<le> BN16 ''a''" "0 \<le> BN16 (share_value \<lparr>share_index = 2, share_value = ''7''\<rparr>)"
    by (simp_all add: BN16_def)
  have l: "length (bufferToHex b) = 64" if "unat b < 16" for b :: bytes32
    using that by (simp add: bufferToHex_def padStart_def hexNat.simps)
  have v: "BN16 ''a'' = 10" "BN16 ''7'' = 7"
    by (simp_all add: BN16_def parseHex_def hexVal_def)
  from generateSignatureShare_value [OF h, of example_sha256 "''test''"
      "[\<lparr>point_x = ''1'', point_y = ''2''\<rparr>]" "()"]
  show ?thesis
    using h by (simp add: example_sha256_def l v curve_n_def)
qed

section \<open>Combination\<close>

text \<open>Evaluation of the arithmetic on numerals, for the concrete runs below.\<close>

lemma bezw_numeral:
  "bezw x (numeral k) =
     (case bezw (numeral k) (x mod numeral k) of
        (u, v) \<Rightarrow> (v, u - v * int (x div numeral k)))"
  by (subst bezw_non_0) (simp_all add: case_prod_beta)

lemma bezw_one: "bezw x (Suc 0) = (0, 1)"
  by (subst bezw_non_0) simp_all

lemmas eval_bn = bn_mod_def bn_umod_def bn_invm_def curve_n_def Let_def bezw_numeral bezw_one

lemma lagrangeStep_unfold:
  "lagrangeStep indices i coeff j =
     (if i \<noteq> j then
        bn_mod (coeff * bn_mod (0 - indices ! j) curve_n *
                bn_invm (bn_mod (indices ! i - indices ! j) curve_n) curve_n) curve_n
      else coeff)"
  by (simp add: lagrangeStep_def Let_def)

lemma combineStep_unfold:
  "combineStep combinedSignature (sh, l) =
     bn_mod (combinedSignature + bn_mod (BN16 (share_value sh) * BN16 l) curve_n) curve_n"
  by (simp add: combineStep_def Let_def)

lemma combineSignatureShares_unfold:
  "combineSignatureShares sha256 message signatureShares commitments publicShares threshold rs =
     (if int (length signatureShares) < threshold
      then Some (Inl (NotEnoughShares threshold (length signatureShares)))
      else case generateRandomPrivateKey rs of
             None \<Rightarrow> None
           | Some (key, rs') \<Rightarrow>
               Some (Inr (\<lparr>sig_r = padStart 64 (CHR ''0'') (toHex (combineLoop signatureShares
                             (calculateLagrangeCoefficients (map share_index signatureShares)))),
                          sig_s = padStart 64 (CHR ''0'') (toHex (BN16 key)),
                          sig_v = 27,
                          sig_combined = toHex (combineLoop signatureShares
                             (calculateLagrangeCoefficients (map share_index signatureShares)))\<rparr>,
                          rs')))"
  by (simp add: combineSignatureShares_def Let_def)

lemma lagrange_13:
  "calculateLagrangeCoefficients [1, 3] =
     [toHex (- 57896044618658097711785492504343953926418782139537452191302581570759080747167),
      toHex (- 57896044618658097711785492504343953926418782139537452191302581570759080747169)]"
  apply (simp add: calculateLagrangeCoefficients_def upt_rec_numeral)
  apply (simp add: lagrangeStep_unfold eval_bn)
  done

lemma lagrange_31:
  "calculateLagrangeCoefficients [3, 1] =
     [toHex (- 57896044618658097711785492504343953926418782139537452191302581570759080747169),
      toHex (- 57896044618658097711785492504343953926418782139537452191302581570759080747167)]"
  apply (simp add: calculateLagrangeCoefficients_def upt_rec_numeral)
  apply (simp add: lagrangeStep_unfold eval_bn)
  done

text \<open>The loop of \<open>combineSignatureShares\<close> keeps the sign that \<open>mod\<close> of bn.js
  gives: on the shares 1 and 3 of the polynomial \<open>5 + x\<close> it ends in \<open>5 - curve_n\<close>,
  in either order.\<close>

lemma combine_13:
  "combineLoop [\<lparr>share_index = 1, share_value = toHex 6\<rparr>, \<lparr>share_index = 3, share_value = toHex 8\<rparr>]
     (calculateLagrangeCoefficients [1, 3]) = 5 - curve_n"
  apply (simp add: combineLoop_def lagrange_13 combineStep_unfold BN16_toHex)
  apply (simp add: eval_bn)
  done

lemma combine_31:
  "combineLoop [\<lparr>share_index = 3, share_value = toHex 8\<rparr>, \<lparr>share_index = 1, share_value = toHex 6\<rparr>]
     (calculateLagrangeCoefficients [3, 1]) = 5 - curve_n"
  apply (simp add: combineLoop_def lagrange_31 combineStep_unfold BN16_toHex)
  apply (simp add: eval_bn)
  done

text \<open>
  Claim C3, as the code has it. \<open>combineSignatureShares\<close> throws, with the threshold
  and the number of shares in its message, exactly when there are fewer shares than the
  threshold, and returns nothing then. It does not look at the indices: with enough
  shares it returns once the random source delivers a number below the group order.
\<close>

theorem combineSignatureShares_threshold:
  "(int (length signatureShares) < threshold \<longrightarrow>
      combineSignatureShares sha256 message signatureShares commitments publicShares threshold rs
        = Some (Inl (NotEnoughShares threshold (length signatureShares)))) \<and>
   (returns (combineSignatureShares sha256 message signatureShares commitments publicShares
        threshold rs) \<longrightarrow> threshold \<le> int (length signatureShares)) \<and>
   (threshold \<le> int (length signatureShares) \<and> accepted rs \<noteq> [] \<longrightarrow>
      returns (combineSignatureShares sha256 message signatureShares commitments publicShares
        threshold rs))"
proof -
  have "returns (combineSignatureShares sha256 message signatureShares commitments publicShares
        threshold rs)"
    if h: "threshold \<le> int (length signatureShares)" "accepted rs \<noteq> []"
  proof -
    obtain key rs' where "generateRandomPrivateKey rs = Some (key, rs')"
      using generateRandomPrivateKey_accepted [OF h(2)] by blast
    with h(1) show ?thesis
      by (simp add: combineSignatureShares_def returns_def Let_def)
  qed
  moreover have "threshold \<le> int (length signatureShares)"
    if "returns (combineSignatureShares sha256 message signatureShares commitments publicShares
        threshold rs)"
    using that by (auto simp: combineSignatureShares_def returns_def split: if_splits)
  ultimately show ?thesis
    by (auto simp: combineSignatureShares_def)
qed

theorem combineSignatureShares_threshold_witness:
  "combineSignatureShares example_sha256 ''test''
      [\<lparr>share_index = 1, share_value = ''6''\<rparr>, \<lparr>share_index = 2, share_value = ''7''\<rparr>] [] [] 3 [9]
     = Some (Inl (NotEnoughShares 3 2)) \<and>
   returns (combineSignatureShares example_sha256 ''test''
      [\<lparr>share_index = 1, share_value = ''6''\<rparr>, \<lparr>share_index = 2, share_value = ''7''\<rparr>] [] [] 2 [9])"
proof -
  have a: "accepted [9] \<noteq> []" by (simp add: accepted_def curve_n_def)
  have "combineSignatureShares example_sha256 ''test''
      [\<lparr>share_index = 1, share_value = ''6''\<rparr>, \<lparr>share_index = 2, share_value = ''7''\<rparr>] [] [] 3 [9]
     = Some (Inl (NotEnoughShares 3 2))"
    using combineSignatureShares_threshold [of
      "[\<lparr>share_index = 1, share_value = ''6''\<rparr>, \<lparr>share_index = 2, share_value = ''7''\<rparr>]"
      3 example_sha256 "''test''" "[]" "[]" "[9]"] by simp
  moreover have "returns (combineSignatureShares example_sha256 ''test''
      [\<lparr>share_index = 1, share_value = ''6''\<rparr>, \<lparr>share_index = 2, share_value = ''7''\<rparr>] [] [] 2 [9])"
    using combineSignatureShares_threshold [of
      "[\<lparr>share_index = 1, share_value = ''6''\<rparr>, \<lparr>share_index = 2, share_value = ''7''\<rparr>]"
      2 example_sha256 "''test''" "[]" "[]" "[9]"] a by simp
  ultimately show ?thesis by simp
qed

text \<open>The claim as stated asks for pairwise distinct indices; two shares with the same
  index pass at threshold 2.\<close>

theorem combineSignatureShares_duplicate_counterexample:
  "\<not> distinct (map share_index
        [\<lparr>share_index = 1, share_value = ''6''\<rparr>, \<lparr>share_index = 1, share_value = ''6''\<rparr>]) \<and>
   returns (combineSignatureShares example_sha256 ''test''
      [\<lparr>share_index = 1, share_value = ''6''\<rparr>, \<lparr>share_index = 1, share_value = ''6''\<rparr>] [] [] 2 [9])"
  by (simp add: combineSignatureShares_def returns_def Let_def
      generateRandomPrivateKey_Cons curve_n_def del: generateRandomPrivateKey.simps)

text \<open>
  Claim C4. The \<open>s\<close> of the returned signature is claimed to be derived from
  \<open>r\<close>, the message hash and the group key. In the code it is the next number of the
  random source, padded to 64 digits, and \<open>v\<close> is the constant 27: for every message,
  every pair of shares, all commitments and public shares, a source that delivers 9
  gives \<open>s = 9\<close> and a source that delivers 7 gives \<open>s = 7\<close>, with the same
  \<open>r\<close>.
\<close>

theorem combineSignatureShares_s_is_the_draw:
  "map_option sig_s (result_of (combineSignatureShares sha256 message [sh, sh']
       commitments publicShares 2 [9])) = Some (padStart 64 (CHR ''0'') (toHex 9)) \<and>
   map_option sig_s (result_of (combineSignatureShares sha256 message [sh, sh']
       commitments publicShares 2 [7])) = Some (padStart 64 (CHR ''0'') (toHex 7)) \<and>
   map_option sig_r (result_of (combineSignatureShares sha256 message [sh, sh']
       commitments publicShares 2 [9])) =
   map_option sig_r (result_of (combineSignatureShares sha256 message [sh, sh']
       commitments publicShares 2 [7])) \<and>
   map_option sig_v (result_of (combineSignatureShares sha256 message [sh, sh']
       commitments publicShares 2 [9])) = Some 27 \<and>
   padStart 64 (CHR ''0'') (toHex 9) \<noteq> padStart 64 (CHR ''0'') (toHex 7)"
proof -
  from pad_9_7 show ?thesis
    by (simp add: combineSignatureShares_unfold result_of_def generateRandomPrivateKey_Cons
        BN16_bufferToHex curve_n_def del: generateRandomPrivateKey.simps)
qed

text \<open>
  Claim C5. Combining share 1 and share 3 and then share 3 and share 1 is claimed to
  give equal signatures in all components. On the shares \<open>6\<close> and \<open>8\<close> of the
  polynomial \<open>5 + x\<close>, with a random source that delivers 9 and then 7, the first
  call returns \<open>s = 9\<close> and leaves 7 for the second call, which returns \<open>s = 7\<close>;
  \<open>r\<close>, \<open>v\<close> and \<open>combined\<close> agree.
\<close>

theorem combineSignatureShares_swapped:
  "source_after (combineSignatureShares sha256 message
       [\<lparr>share_index = 1, share_value = toHex 6\<rparr>, \<lparr>share_index = 3, share_value = toHex 8\<rparr>]
       commitments publicShares 2 [9, 7]) = Some [7] \<and>
   result_of (combineSignatureShares sha256 message
       [\<lparr>share_index = 1, share_value = toHex 6\<rparr>, \<lparr>share_index = 3, share_value = toHex 8\<rparr>]
       commitments publicShares 2 [9, 7]) =
     Some \<lparr>sig_r = padStart 64 (CHR ''0'') (toHex (5 - curve_n)),
           sig_s = padStart 64 (CHR ''0'') (toHex 9),
           sig_v = 27,
           sig_combined = toHex (5 - curve_n)\<rparr> \<and>
   result_of (combineSignatureShares sha256 message
       [\<lparr>share_index = 3, share_value = toHex 8\<rparr>, \<lparr>share_index = 1, share_value = toHex 6\<rparr>]
       commitments publicShares 2 [7]) =
     Some \<lparr>sig_r = padStart 64 (CHR ''0'') (toHex (5 - curve_n)),
           sig_s = padStart 64 (CHR ''0'') (toHex 7),
           sig_v = 27,
           sig_combined = toHex (5 - curve_n)\<rparr> \<and>
   padStart 64 (CHR ''0'') (toHex 9) \<noteq> padStart 64 (CHR ''0'') (toHex 7)"
proof -
  from pad_9_7 show ?thesis
    by (simp add: combineSignatureShares_unfold result_of_def source_after_def
        generateRandomPrivateKey_Cons BN16_bufferToHex combine_13 combine_31
        del: generateRandomPrivateKey.simps)
       (simp add: curve_n_def)
qed

section \<open>Verification\<close>



section \<open>Lagrange interpolation in a commutative ring\<close>

text \<open>
  Two identities carry the proof. Removing one of two positions \<open>a\<close>, \<open>b\<close> from
  \<open>S\<close> relates the three interpolations (\<open>interp_neville\<close>), which gives the
  interpolation of the constant 1 by induction on the size of \<open>S\<close>; multiplying the
  interpolated values by \<open>x\<close> relates the interpolations on \<open>S\<close> and on \<open>S\<close>
  without \<open>a\<close> (\<open>interp_mult_x\<close>), which gives the powers of \<open>x\<close> by induction
  on the exponent.
\<close>

lemma inverses_subset: "inverses x u S \<Longrightarrow> T \<subseteq> S \<Longrightarrow> inverses x u T"
  by (auto simp: inverses_def)

lemma lag_remove:
  assumes "finite S" "a \<in> S" "a \<noteq> i"
  shows "lag x u S i = (- x a) * u i a * lag x u (S - {a}) i"
proof -
  have "S - {i} = insert a ((S - {a}) - {i})" using assms by auto
  moreover have "a \<notin> (S - {a}) - {i}" by simp
  moreover have "finite ((S - {a}) - {i})" using assms by simp
  ultimately show ?thesis by (simp add: lag_def)
qed

lemma lag_mult_x:
  assumes "finite S" "inverses x u S" "a \<in> S" "i \<in> S"
  shows "x i * lag x u S i =
     x a * (lag x u S i - (if i = a then 0 else lag x u (S - {a}) i))"
proof (cases "i = a")
  case True
  then show ?thesis by simp
next
  case False
  then have h: "(x i - x a) * u i a = 1" using assms by (simp add: inverses_def)
  have l: "lag x u S i = (- x a) * u i a * lag x u (S - {a}) i"
    using assms False by (intro lag_remove) auto
  have e: "x i * u i a = 1 + x a * u i a" using h by (simp add: algebra_simps)
  have "x i * lag x u S i = (- x a) * lag x u (S - {a}) i * (x i * u i a)"
    by (simp add: l algebra_simps)
  also have "\<dots> = x a * ((- x a) * u i a * lag x u (S - {a}) i - lag x u (S - {a}) i)"
    by (simp add: e algebra_simps)
  finally show ?thesis using False by (simp add: l)
qed

lemma lag_neville:
  assumes "finite S" "inverses x u S" "a \<in> S" "b \<in> S" "a \<noteq> b" "i \<in> S"
  shows "(x b - x a) * lag x u S i =
     x b * (if i = b then 0 else lag x u (S - {b}) i)
     - x a * (if i = a then 0 else lag x u (S - {a}) i)"
proof -
  consider "i = a" | "i = b" | "i \<noteq> a" "i \<noteq> b" by blast
  then show ?thesis
  proof cases
    case 1
    have h: "(x a - x b) * u a b = 1" using assms by (simp add: inverses_def)
    have l: "lag x u S a = (- x b) * u a b * lag x u (S - {b}) a"
      using assms by (intro lag_remove) auto
    have "(x b - x a) * lag x u S a = x b * lag x u (S - {b}) a * ((x a - x b) * u a b)"
      by (simp add: l algebra_simps)
    then show ?thesis using 1 assms(5) by (simp add: h)
  next
    case 2
    have h: "(x b - x a) * u b a = 1" using assms by (simp add: inverses_def)
    have l: "lag x u S b = (- x a) * u b a * lag x u (S - {a}) b"
      using assms by (intro lag_remove) auto
    have "(x b - x a) * lag x u S b = - x a * lag x u (S - {a}) b * ((x b - x a) * u b a)"
      by (simp add: l algebra_simps)
    then show ?thesis using 2 assms(5) by (simp add: h)
  next
    case 3
    have ha: "(x i - x a) * u i a = 1" and hb: "(x i - x b) * u i b = 1"
      using assms 3 by (simp_all add: inverses_def)
    define L where "L = lag x u (S - {a} - {b}) i"
    have sw: "S - {b} - {a} = S - {a} - {b}" by auto
    have la: "lag x u (S - {b}) i = (- x a) * u i a * L"
      using assms 3 lag_remove [of "S - {b}" a i x u] by (simp add: L_def sw)
    have lb: "lag x u (S - {a}) i = (- x b) * u i b * L"
      using assms 3 lag_remove [of "S - {a}" b i x u] by (simp add: L_def)
    have l: "lag x u S i = (- x a) * u i a * ((- x b) * u i b * L)"
      using assms 3 lag_remove [of S a i x u] by (simp add: lb)
    have k: "(x b - x a) * (u i a * u i b) = u i b - u i a"
    proof -
      have "u i b - u i a = u i b * ((x i - x a) * u i a) - u i a * ((x i - x b) * u i b)"
        by (simp add: ha hb)
      also have "\<dots> = (x b - x a) * (u i a * u i b)" by (simp add: algebra_simps)
      finally show ?thesis by simp
    qed
    have "(x b - x a) * lag x u S i = x a * x b * L * ((x b - x a) * (u i a * u i b))"
      by (simp add: l algebra_simps)
    also have "\<dots> = x a * x b * L * (u i b - u i a)" by (simp only: k)
    also have "\<dots> = x b * ((- x a) * u i a * L) - x a * ((- x b) * u i b * L)"
      by (simp add: algebra_simps)
    finally show ?thesis using 3 by (simp add: la lb)
  qed
qed

lemma sum_skip:
  assumes "finite S" "a \<in> S"
  shows "(\<Sum>i\<in>S. if i = a then 0 else f i) = (\<Sum>i\<in>S - {a}. (f i :: 'a::comm_ring_1))"
proof -
  have "(\<Sum>i\<in>S. if i = a then 0 else f i) =
      (if a = a then 0 else f a) + (\<Sum>i\<in>S - {a}. if i = a then 0 else f i)"
    using assms by (rule sum.remove)
  also have "(\<Sum>i\<in>S - {a}. if i = a then 0 else f i) = (\<Sum>i\<in>S - {a}. f i)"
    by (rule sum.cong) auto
  finally show ?thesis by simp
qed

lemma prod_skip:
  assumes "finite S" "a \<in> S"
  shows "(\<Prod>i\<in>S. if i = a then 1 else f i) = (\<Prod>i\<in>S - {a}. (f i :: 'a::comm_ring_1))"
proof -
  have "(\<Prod>i\<in>S. if i = a then 1 else f i) =
      (if a = a then 1 else f a) * (\<Prod>i\<in>S - {a}. if i = a then 1 else f i)"
    using assms by (rule prod.remove)
  also have "(\<Prod>i\<in>S - {a}. if i = a then 1 else f i) = (\<Prod>i\<in>S - {a}. f i)"
    by (rule prod.cong) auto
  finally show ?thesis by simp
qed

lemma interp_mult_x:
  assumes "finite S" "inverses x u S" "a \<in> S"
  shows "interp x u S (\<lambda>i. x i * g i) = x a * (interp x u S g - interp x u (S - {a}) g)"
proof -
  have pw: "x i * g i * lag x u S i =
      x a * (g i * lag x u S i) - x a * (if i = a then 0 else g i * lag x u (S - {a}) i)"
    if "i \<in> S" for i
  proof -
    have "x i * g i * lag x u S i = g i * (x i * lag x u S i)" by (simp add: algebra_simps)
    also have "x i * lag x u S i =
       x a * (lag x u S i - (if i = a then 0 else lag x u (S - {a}) i))"
      using assms that by (rule lag_mult_x)
    finally show ?thesis by (cases "i = a") (simp_all add: algebra_simps)
  qed
  have "interp x u S (\<lambda>i. x i * g i) =
      (\<Sum>i\<in>S. x a * (g i * lag x u S i) -
         x a * (if i = a then 0 else g i * lag x u (S - {a}) i))"
    unfolding interp_def by (rule sum.cong) (simp_all only: pw)
  also have "\<dots> = x a * (\<Sum>i\<in>S. g i * lag x u S i) -
      x a * (\<Sum>i\<in>S. if i = a then 0 else g i * lag x u (S - {a}) i)"
    by (simp only: sum_subtractf sum_distrib_left)
  also have "(\<Sum>i\<in>S. if i = a then 0 else g i * lag x u (S - {a}) i) =
       (\<Sum>i\<in>S - {a}. g i * lag x u (S - {a}) i)"
    using assms(1,3) by (rule sum_skip)
  finally show ?thesis by (simp add: interp_def algebra_simps)
qed

lemma interp_neville:
  assumes "finite S" "inverses x u S" "a \<in> S" "b \<in> S" "a \<noteq> b"
  shows "(x b - x a) * interp x u S g =
     x b * interp x u (S - {b}) g - x a * interp x u (S - {a}) g"
proof -
  have pw: "(x b - x a) * (g i * lag x u S i) =
      x b * (if i = b then 0 else g i * lag x u (S - {b}) i) -
      x a * (if i = a then 0 else g i * lag x u (S - {a}) i)"
    if "i \<in> S" for i
  proof -
    have "(x b - x a) * (g i * lag x u S i) = g i * ((x b - x a) * lag x u S i)"
      by (simp add: algebra_simps)
    also have "(x b - x a) * lag x u S i =
       x b * (if i = b then 0 else lag x u (S - {b}) i)
       - x a * (if i = a then 0 else lag x u (S - {a}) i)"
      using assms that by (rule lag_neville)
    finally show ?thesis
      using assms(5) by (cases "i = a"; cases "i = b") (simp_all add: algebra_simps)
  qed
  have "(x b - x a) * interp x u S g = (\<Sum>i\<in>S. (x b - x a) * (g i * lag x u S i))"
    by (simp only: interp_def sum_distrib_left)
  also have "\<dots> = (\<Sum>i\<in>S. x b * (if i = b then 0 else g i * lag x u (S - {b}) i) -
      x a * (if i = a then 0 else g i * lag x u (S - {a}) i))"
    by (rule sum.cong) (simp_all only: pw)
  also have "\<dots> = x b * (\<Sum>i\<in>S. if i = b then 0 else g i * lag x u (S - {b}) i)
       - x a * (\<Sum>i\<in>S. if i = a then 0 else g i * lag x u (S - {a}) i)"
    by (simp only: sum_subtractf sum_distrib_left)
  also have "(\<Sum>i\<in>S. if i = b then 0 else g i * lag x u (S - {b}) i) =
       (\<Sum>i\<in>S - {b}. g i * lag x u (S - {b}) i)"
    using assms(1,4) by (rule sum_skip)
  also have "(\<Sum>i\<in>S. if i = a then 0 else g i * lag x u (S - {a}) i) =
       (\<Sum>i\<in>S - {a}. g i * lag x u (S - {a}) i)"
    using assms(1,3) by (rule sum_skip)
  finally show ?thesis by (simp only: interp_def)
qed

lemma interp_one:
  "finite S \<Longrightarrow> S \<noteq> {} \<Longrightarrow> inverses x u S \<Longrightarrow> interp x u S (\<lambda>i. 1) = 1"
proof (induction "card S" arbitrary: S rule: less_induct)
  case less
  from less.prems(2) obtain a where a: "a \<in> S" by blast
  show ?case
  proof (cases "S = {a}")
    case True
    then show ?thesis by (simp add: interp_def lag_def)
  next
    case False
    with a obtain b where b: "b \<in> S" "a \<noteq> b" by blast
    have ca: "card (S - {a}) < card S"
      using less.prems(1) a by (rule card_Diff1_less)
    have cb: "card (S - {b}) < card S"
      using less.prems(1) b(1) by (rule card_Diff1_less)
    have ia: "interp x u (S - {a}) (\<lambda>i. 1) = 1"
      using less.hyps [OF ca] less.prems b inverses_subset [of x u S "S - {a}"] by auto
    have ib: "interp x u (S - {b}) (\<lambda>i. 1) = 1"
      using less.hyps [OF cb] less.prems a b inverses_subset [of x u S "S - {b}"] by auto
    have "(x b - x a) * interp x u S (\<lambda>i. 1) = x b - x a"
      using interp_neville [OF less.prems(1) less.prems(3) a b(1) b(2), of "\<lambda>i. 1"]
      by (simp add: ia ib)
    moreover have h: "(x b - x a) * u b a = 1"
      using less.prems(3) a b by (simp add: inverses_def)
    ultimately have "u b a * ((x b - x a) * interp x u S (\<lambda>i. 1)) = u b a * (x b - x a)"
      by simp
    then have "((x b - x a) * u b a) * interp x u S (\<lambda>i. 1) = (x b - x a) * u b a"
      by (simp add: algebra_simps)
    then show ?thesis by (simp add: h)
  qed
qed

lemma interp_power:
  "finite S \<Longrightarrow> inverses x u S \<Longrightarrow> m < card S \<Longrightarrow>
     interp x u S (\<lambda>i. x i ^ m) = (if m = 0 then 1 else 0)"
proof (induction m arbitrary: S)
  case 0
  from 0(3) have "S \<noteq> {}" by auto
  with 0 show ?case by (simp add: interp_one)
next
  case (Suc m)
  from Suc.prems(3) have "S \<noteq> {}" by auto
  then obtain a where a: "a \<in> S" by blast
  have c: "m < card (S - {a})" using Suc.prems a by simp
  have f: "finite (S - {a})" using Suc.prems by simp
  have i: "inverses x u (S - {a})"
    using Suc.prems(2) by (rule inverses_subset) auto
  have "interp x u S (\<lambda>i. x i ^ Suc m) = interp x u S (\<lambda>i. x i * x i ^ m)" by simp
  also have "\<dots> = x a * (interp x u S (\<lambda>i. x i ^ m) - interp x u (S - {a}) (\<lambda>i. x i ^ m))"
    using Suc.prems(1,2) a by (rule interp_mult_x)
  also have "interp x u S (\<lambda>i. x i ^ m) = (if m = 0 then 1 else 0)"
    using Suc.prems by (intro Suc.IH) simp_all
  also have "interp x u (S - {a}) (\<lambda>i. x i ^ m) = (if m = 0 then 1 else 0)"
    using f i c by (rule Suc.IH)
  finally show ?case by simp
qed

lemma interp_polynomial:
  assumes "finite S" "inverses x u S" "0 < t" "t \<le> card S"
  shows "interp x u S (\<lambda>i. \<Sum>m<t. c m * x i ^ m) = c 0"
proof -
  have "interp x u S (\<lambda>i. \<Sum>m<t. c m * x i ^ m) =
      (\<Sum>i\<in>S. \<Sum>m<t. c m * x i ^ m * lag x u S i)"
    by (simp only: interp_def sum_distrib_right)
  also have "\<dots> = (\<Sum>m<t. \<Sum>i\<in>S. c m * x i ^ m * lag x u S i)"
    by (rule sum.swap)
  also have "\<dots> = (\<Sum>m<t. c m * interp x u S (\<lambda>i. x i ^ m))"
    by (simp only: interp_def sum_distrib_left mult.assoc)
  also have "\<dots> = (\<Sum>m<t. c m * (if m = 0 then 1 else 0))"
  proof (rule sum.cong)
    fix m assume "m \<in> {..<t}"
    then have "m < card S" using assms(4) by simp
    with assms(1,2) show "c m * interp x u S (\<lambda>i. x i ^ m) = c m * (if m = 0 then 1 else 0)"
      by (simp only: interp_power)
  qed simp
  also have "\<dots> = (\<Sum>m<t. if m = 0 then c 0 else 0)"
    by (rule sum.cong) simp_all
  also have "\<dots> = c 0" using assms(3) by (simp add: sum.delta)
  finally show ?thesis .
qed

section \<open>The arithmetic of the code, modulo the group order\<close>

lemma card_Zq: "int CARD(Zq) = curve_n"
  by (simp add: curve_n_def)

lemma of_int_Zq_eq_iff: "(of_int a :: Zq) = of_int b \<longleftrightarrow> a mod curve_n = b mod curve_n"
proof -
  have "(of_int a :: Zq) = of_int b \<longleftrightarrow> (of_int (a - b) :: Zq) = 0" by simp
  also have "\<dots> \<longleftrightarrow> int CHAR(Zq) dvd a - b" by (rule of_int_eq_0_iff_char_dvd)
  also have "\<dots> \<longleftrightarrow> curve_n dvd a - b" using card_Zq by simp
  also have "\<dots> \<longleftrightarrow> a mod curve_n = b mod curve_n" by (simp add: mod_eq_dvd_iff)
  finally show ?thesis .
qed

lemma of_int_curve_n: "(of_int curve_n :: Zq) = 0"
  using of_int_Zq_eq_iff [of curve_n 0] by simp

lemma of_int_mod_curve_n: "(of_int (a mod curve_n) :: Zq) = of_int a"
  by (simp add: of_int_Zq_eq_iff)

lemma of_int_bn_mod: "(of_int (bn_mod a curve_n) :: Zq) = of_int a"
proof (cases "a < 0")
  case True
  then have "(of_int (bn_mod a curve_n) :: Zq) = - of_int ((- a) mod curve_n)"
    by (simp add: bn_mod_def)
  also have "\<dots> = - of_int (- a)" by (simp only: of_int_mod_curve_n)
  finally show ?thesis by simp
next
  case False
  then show ?thesis by (simp add: bn_mod_def of_int_mod_curve_n)
qed

lemma bn_umod_eq: "bn_umod a curve_n = a mod curve_n"
proof -
  have q: "0 < curve_n" by (rule curve_n_pos)
  show ?thesis
  proof (cases "a < 0")
    case True
    show ?thesis
    proof (cases "(- a) mod curve_n = 0")
      case z: True
      then have "curve_n dvd - a" by (simp only: dvd_eq_mod_eq_0)
      then have "curve_n dvd a" by simp
      then have "a mod curve_n = 0" by (simp only: dvd_eq_mod_eq_0)
      with True z show ?thesis by (simp add: bn_umod_def bn_mod_def)
    next
      case nz: False
      then have p: "0 < (- a) mod curve_n" using q
        by (metis less_le pos_mod_sign)
      have "a mod curve_n = curve_n - (- a) mod curve_n"
        using nz by (metis add.inverse_inverse zmod_zminus1_eq_if)
      with True p show ?thesis by (simp add: bn_umod_def bn_mod_def)
    qed
  next
    case False
    then have "0 \<le> a mod curve_n" using q by simp
    with False show ?thesis by (simp add: bn_umod_def bn_mod_def)
  qed
qed

lemma of_int_bn_invm:
  assumes "coprime d curve_n"
  shows "(of_int (bn_invm d curve_n) :: Zq) * of_int d = 1"
proof -
  define x where "x = nat (d mod curve_n)"
  define y where "y = nat curve_n"
  have q: "0 < curve_n" by (rule curve_n_pos)
  have x: "int x = d mod curve_n" using q by (simp add: x_def)
  have y: "int y = curve_n" using q by (simp add: y_def)
  have "coprime (d mod curve_n) curve_n" using assms q by simp
  then have "coprime (int x) (int y)" by (simp only: x y)
  then have "coprime x y" by (simp only: coprime_int_iff)
  then have g: "gcd x y = 1" by (simp only: coprime_iff_gcd_eq_1)
  have "int (gcd x y) = fst (bezw x y) * int x + snd (bezw x y) * int y"
    by (rule bezw_aux)
  then have "1 = fst (bezw x y) * (d mod curve_n) + snd (bezw x y) * curve_n"
    by (simp only: g x y)
  then have "(1 :: Zq) = of_int (fst (bezw x y) * (d mod curve_n) + snd (bezw x y) * curve_n)"
    by (metis of_int_1)
  also have "\<dots> = of_int (fst (bezw x y)) * of_int d"
    by (simp add: of_int_curve_n of_int_mod_curve_n)
  finally have "(of_int (fst (bezw x y)) :: Zq) * of_int d = 1" by simp
  moreover have "bn_invm d curve_n = fst (bezw x y) mod curve_n"
    by (simp add: bn_invm_def bn_umod_eq x_def y_def)
  ultimately show ?thesis by (simp add: of_int_mod_curve_n)
qed

text \<open>The group order has no divisor in common with \<open>49!\<close>, so every difference of
  two indices between 1 and 50 has an inverse, and \<open>invm\<close> finds it.\<close>

lemma coprime_fact_49: "coprime (fact 49 :: int) curve_n"
proof (rule coprimeI)
  fix c :: int
  assume c: "c dvd fact 49" "c dvd curve_n"
  have "(fact 49 :: int) * 87466872403848274919490759210644250354896668656901132215985043135477024075456
      - curve_n * 459483135139029025749140634964006077619459502097601080343441727 = 1"
    by (simp add: curve_n_def fact_numeral)
  moreover have "c dvd (fact 49 :: int) * 87466872403848274919490759210644250354896668656901132215985043135477024075456
      - curve_n * 459483135139029025749140634964006077619459502097601080343441727"
    using c by (intro dvd_diff dvd_mult2)
  ultimately show "is_unit c" by simp
qed

lemma coprime_small:
  assumes "0 < d" "d < 50"
  shows "coprime (d :: int) curve_n"
proof -
  have "nat d dvd fact 49" using assms by (intro dvd_fact) simp_all
  then have "int (nat d) dvd int (fact 49)" by (simp only: int_dvd_int_iff)
  then have "d dvd (fact 49 :: int)" using assms by simp
  then show ?thesis using coprime_fact_49 by (rule coprime_divisors [OF _ dvd_refl])
qed

lemma coprime_difference:
  assumes "1 \<le> a" "a \<le> 50" "1 \<le> b" "b \<le> 50" "a \<noteq> b"
  shows "coprime (bn_mod (a - b) curve_n) curve_n"
proof -
  have "\<bar>a - b\<bar> < curve_n" using assms by (simp add: curve_n_def)
  then have m: "bn_mod (a - b) curve_n = a - b" by (rule bn_mod_small)
  show ?thesis
  proof (cases "b < a")
    case True
    then show ?thesis using assms by (simp add: m coprime_small)
  next
    case False
    then have "coprime (b - a) curve_n" using assms by (intro coprime_small) simp_all
    then have "coprime (- (b - a)) curve_n" by (simp only: coprime_minus_left_iff)
    then show ?thesis by (simp add: m)
  qed
qed

text \<open>The two loops, read modulo the group order.\<close>

lemma of_int_lagrangeStep:
  "(of_int (lagrangeStep xs i c j) :: Zq) =
     of_int c * (if j = i then 1 else
       (- of_int (xs ! j)) * of_int (bn_invm (bn_mod (xs ! i - xs ! j) curve_n) curve_n))"
  by (simp add: lagrangeStep_unfold of_int_bn_mod)

lemma of_int_foldl_lagrangeStep:
  "(of_int (foldl (lagrangeStep xs i) c js) :: Zq) =
     of_int c * (\<Prod>j\<leftarrow>js. if j = i then 1 else
       (- of_int (xs ! j)) * of_int (bn_invm (bn_mod (xs ! i - xs ! j) curve_n) curve_n))"
proof (induction js arbitrary: c)
  case Nil
  then show ?case by simp
next
  case (Cons j js)
  show ?case
    by (simp only: foldl_Cons Cons.IH of_int_lagrangeStep list.map prod_list.Cons mult.assoc)
qed

lemma of_int_lagrange_coefficient:
  assumes "i < length xs"
  shows "(of_int (BN16 (calculateLagrangeCoefficients xs ! i)) :: Zq) =
     lag (\<lambda>j. of_int (xs ! j))
         (\<lambda>i j. of_int (bn_invm (bn_mod (xs ! i - xs ! j) curve_n) curve_n))
         {0..<length xs} i"
proof -
  let ?f = "\<lambda>j. (- of_int (xs ! j)) *
      (of_int (bn_invm (bn_mod (xs ! i - xs ! j) curve_n) curve_n) :: Zq)"
  have "calculateLagrangeCoefficients xs ! i =
      toHex (foldl (lagrangeStep xs i) 1 [0..<length xs])"
    using assms by (simp add: calculateLagrangeCoefficients_def)
  then have "(of_int (BN16 (calculateLagrangeCoefficients xs ! i)) :: Zq) =
      (\<Prod>j\<leftarrow>[0..<length xs]. if j = i then 1 else ?f j)"
    by (simp add: BN16_toHex of_int_foldl_lagrangeStep)
  also have "\<dots> = (\<Prod>j\<in>{0..<length xs}. if j = i then 1 else ?f j)"
    by (simp add: prod.distinct_set_conv_list [symmetric])
  also have "\<dots> = (\<Prod>j\<in>{0..<length xs} - {i}. ?f j)"
    using assms by (intro prod_skip) simp_all
  finally show ?thesis by (simp add: lag_def)
qed

lemma of_int_foldl_combineStep:
  "(of_int (foldl combineStep acc zs) :: Zq) =
     of_int acc + (\<Sum>z\<leftarrow>zs. of_int (BN16 (share_value (fst z))) * of_int (BN16 (snd z)))"
proof (induction zs arbitrary: acc)
  case Nil
  then show ?case by simp
next
  case (Cons z zs)
  have "(of_int (combineStep acc z) :: Zq) =
      of_int acc + of_int (BN16 (share_value (fst z))) * of_int (BN16 (snd z))"
    by (cases z) (simp add: combineStep_unfold of_int_bn_mod)
  then show ?case by (simp add: Cons.IH add.assoc)
qed

lemma of_int_combineLoop:
  assumes "length ls = length ss"
  shows "(of_int (combineLoop ss ls) :: Zq) =
     (\<Sum>p\<in>{0..<length ss}. of_int (BN16 (share_value (ss ! p))) * of_int (BN16 (ls ! p)))"
proof -
  have "(of_int (combineLoop ss ls) :: Zq) =
     (\<Sum>z\<leftarrow>zip ss ls. of_int (BN16 (share_value (fst z))) * of_int (BN16 (snd z)))"
    by (simp add: combineLoop_def of_int_foldl_combineStep)
  also have "\<dots> = (\<Sum>p = 0..<length (zip ss ls).
      of_int (BN16 (share_value (fst (zip ss ls ! p)))) * of_int (BN16 (snd (zip ss ls ! p))))"
    by (simp add: sum_list_sum_nth)
  also have "\<dots> = (\<Sum>p\<in>{0..<length ss}.
      of_int (BN16 (share_value (ss ! p))) * of_int (BN16 (ls ! p)))"
    using assms by (intro sum.cong) simp_all
  finally show ?thesis .
qed

lemma of_int_evaluatePolynomial:
  assumes "\<forall>c\<in>set a. 0 \<le> c" "0 \<le> i"
  shows "(of_int (evaluatePolynomial a i 0 0) :: Zq) =
     (\<Sum>m<length a. of_int (a ! m) * of_int i ^ m)"
proof -
  have "evaluatePolynomial a i 0 0 = (0 + (\<Sum>k<length a. a ! k * i ^ (0 + k))) mod curve_n"
    using assms curve_n_pos by (intro evaluatePolynomial_sum) simp_all
  then have "(of_int (evaluatePolynomial a i 0 0) :: Zq) = of_int (\<Sum>k<length a. a ! k * i ^ k)"
    by (simp add: of_int_mod_curve_n)
  then show ?thesis by simp
qed

lemma combineLoop_mod:
  "combineLoop sel (calculateLagrangeCoefficients (map share_index sel)) mod curve_n =
     interpolateAtZero sel"
proof -
  let ?L = "calculateLagrangeCoefficients (map share_index sel)"
  have "length ?L = length sel" by (simp add: calculateLagrangeCoefficients_def)
  then have "(of_int (combineLoop sel ?L) :: Zq) =
     (\<Sum>p\<in>{0..<length sel}. of_int (BN16 (share_value (sel ! p))) * of_int (BN16 (?L ! p)))"
    by (rule of_int_combineLoop)
  also have "\<dots> = of_int (\<Sum>p<length sel. BN16 (share_value (sel ! p)) * BN16 (?L ! p))"
    by (simp add: lessThan_atLeast0)
  finally have "combineLoop sel ?L mod curve_n =
     (\<Sum>p<length sel. BN16 (share_value (sel ! p)) * BN16 (?L ! p)) mod curve_n"
    by (simp only: of_int_Zq_eq_iff)
  then show ?thesis by (simp add: interpolateAtZero_def)
qed

section \<open>Reconstruction of the group key\<close>

lemma interpolation_core:
  assumes a: "length a = nat t" "\<forall>c\<in>set a. 0 \<le> c \<and> c < curve_n" and t: "1 \<le> t"
    and sel: "\<forall>p<length sel. 1 \<le> share_index (sel ! p) \<and> share_index (sel ! p) \<le> 50 \<and>
        share_value (sel ! p) = toHex (evaluatePolynomial a (share_index (sel ! p)) 0 0)"
    and d: "distinct (map share_index sel)" and k: "nat t \<le> length sel"
  shows "interpolateAtZero sel = hd a"
proof -
  define xs where "xs = map share_index sel"
  define x :: "nat \<Rightarrow> Zq" where "x = (\<lambda>j. of_int (xs ! j))"
  define u :: "nat \<Rightarrow> nat \<Rightarrow> Zq" where
    "u = (\<lambda>i j. of_int (bn_invm (bn_mod (xs ! i - xs ! j) curve_n) curve_n))"
  define S where "S = {0..<length sel}"
  define c :: "nat \<Rightarrow> Zq" where "c = (\<lambda>m. of_int (a ! m))"
  have lx: "length xs = length sel" by (simp add: xs_def)
  have xr: "1 \<le> xs ! p \<and> xs ! p \<le> 50" if "p < length sel" for p
    using sel that by (simp add: xs_def)
  have inv: "inverses x u S"
    unfolding inverses_def
  proof (intro ballI impI)
    fix i j assume ij: "i \<in> S" "j \<in> S" "i \<noteq> j"
    then have ne: "xs ! i \<noteq> xs ! j"
      using d by (simp add: xs_def [symmetric] S_def lx nth_eq_iff_index_eq)
    have "coprime (bn_mod (xs ! i - xs ! j) curve_n) curve_n"
      using xr [of i] xr [of j] ij ne by (intro coprime_difference) (simp_all add: S_def)
    then have "(of_int (bn_invm (bn_mod (xs ! i - xs ! j) curve_n) curve_n) :: Zq) *
        of_int (bn_mod (xs ! i - xs ! j) curve_n) = 1"
      by (rule of_int_bn_invm)
    then show "(x i - x j) * u i j = 1"
      by (simp add: x_def u_def of_int_bn_mod mult.commute)
  qed
  have val: "(of_int (BN16 (share_value (sel ! p))) :: Zq) = (\<Sum>m<nat t. c m * x p ^ m)"
    if "p < length sel" for p
  proof -
    have "share_value (sel ! p) = toHex (evaluatePolynomial a (xs ! p) 0 0)"
      using sel that by (simp add: xs_def)
    then have "(of_int (BN16 (share_value (sel ! p))) :: Zq) =
        of_int (evaluatePolynomial a (xs ! p) 0 0)"
      by (simp add: BN16_toHex)
    also have "\<dots> = (\<Sum>m<length a. of_int (a ! m) * of_int (xs ! p) ^ m)"
      using a(2) xr [OF that] by (intro of_int_evaluatePolynomial) auto
    finally show ?thesis by (simp add: a(1) c_def x_def)
  qed
  have co: "(of_int (BN16 (calculateLagrangeCoefficients xs ! p)) :: Zq) = lag x u S p"
    if "p < length sel" for p
    using that of_int_lagrange_coefficient [of p xs]
    by (simp add: lx x_def u_def S_def)
  have "(of_int (\<Sum>p<length sel. BN16 (share_value (sel ! p)) *
          BN16 (calculateLagrangeCoefficients xs ! p)) :: Zq) =
      (\<Sum>p\<in>S. (\<Sum>m<nat t. c m * x p ^ m) * lag x u S p)"
    by (simp add: S_def lessThan_atLeast0 val co)
  also have "\<dots> = interp x u S (\<lambda>p. \<Sum>m<nat t. c m * x p ^ m)"
    by (simp add: interp_def)
  also have "\<dots> = c 0"
    using inv t k by (intro interp_polynomial) (simp_all add: S_def)
  also have "\<dots> = of_int (hd a)"
    using a(1) t by (cases a) (simp_all add: c_def)
  finally have "(\<Sum>p<length sel. BN16 (share_value (sel ! p)) *
          BN16 (calculateLagrangeCoefficients xs ! p)) mod curve_n = hd a mod curve_n"
    by (simp only: of_int_Zq_eq_iff)
  moreover have "0 \<le> hd a \<and> hd a < curve_n"
    using a t by (cases a) simp_all
  ultimately show ?thesis
    by (simp add: interpolateAtZero_def xs_def)
qed

lemma selection_of_shares:
  assumes "set sel \<subseteq> set (map (\<lambda>i. \<lparr>share_index = i,
           share_value = toHex (evaluatePolynomial a i 0 0)\<rparr>) [1..n])" "n \<le> 50"
  shows "\<forall>p<length sel. 1 \<le> share_index (sel ! p) \<and> share_index (sel ! p) \<le> 50 \<and>
        share_value (sel ! p) = toHex (evaluatePolynomial a (share_index (sel ! p)) 0 0)"
proof (intro allI impI)
  fix p assume "p < length sel"
  then have "sel ! p \<in> set sel" by simp
  with assms(1) obtain i where "i \<in> set [1..n]"
      "sel ! p = \<lparr>share_index = i, share_value = toHex (evaluatePolynomial a i 0 0)\<rparr>"
    by auto
  with assms(2) show "1 \<le> share_index (sel ! p) \<and> share_index (sel ! p) \<le> 50 \<and>
        share_value (sel ! p) = toHex (evaluatePolynomial a (share_index (sel ! p)) 0 0)"
    by simp
qed

text \<open>
  Claim C1. Let \<open>generateKeyShares(n, t)\<close> return, with \<open>n \<le> 50\<close>, and take any
  \<open>t\<close> or more of the returned shares with pairwise distinct indices. Interpolating
  their values at 0 with the coefficients of \<open>_calculateLagrangeCoefficients\<close> gives a
  scalar whose multiple of the base point is the returned group public key, and every
  such selection gives the same scalar. The loop of \<open>combineSignatureShares\<close>, run on
  the selection, ends in a number congruent to that scalar modulo the group order.
\<close>

theorem shares_reconstruct_group_key:
  assumes "n \<le> 50" and "generateKeyShares g_mul n t rs = Some (Inr (ks, rs'))"
    and "set sel \<subseteq> set (ks_shares ks)" "distinct (map share_index sel)"
        "nat t \<le> length sel"
    and "set sel' \<subseteq> set (ks_shares ks)" "distinct (map share_index sel')"
        "nat t \<le> length sel'"
  shows "pointToHex (g_mul (interpolateAtZero sel)) = ks_groupPublicKey ks \<and>
     interpolateAtZero sel' = interpolateAtZero sel \<and>
     combineLoop sel (calculateLagrangeCoefficients (map share_index sel)) mod curve_n =
       interpolateAtZero sel"
proof -
  from generateKeyShares_Inr [OF assms(2)] obtain a where
    t: "1 \<le> t" "t \<le> n" and a: "length a = nat t" "\<forall>c\<in>set a. 0 \<le> c \<and> c < curve_n"
    and s: "ks_shares ks = map (\<lambda>i. \<lparr>share_index = i,
           share_value = toHex (evaluatePolynomial a i 0 0)\<rparr>) [1..n]"
    and g: "ks_groupPublicKey ks = pointToHex (g_mul (hd a))"
    by blast
  have "interpolateAtZero sel = hd a"
    using a t(1) selection_of_shares [of sel a n] assms(1,3,4,5)
    by (intro interpolation_core [where t = t]) (simp_all add: s)
  moreover have "interpolateAtZero sel' = hd a"
    using a t(1) selection_of_shares [of sel' a n] assms(1,6,7,8)
    by (intro interpolation_core [where t = t]) (simp_all add: s)
  ultimately show ?thesis by (simp add: g combineLoop_mod)
qed

theorem shares_reconstruct_group_key_witness:
  "(3::int) \<le> 50 \<and>
   generateKeyShares example_g_mul 3 2 [5, 1] = Some (Inr
     (\<lparr>ks_shares = [\<lparr>share_index = 1, share_value = toHex 6\<rparr>,
                    \<lparr>share_index = 2, share_value = toHex 7\<rparr>,
                    \<lparr>share_index = 3, share_value = toHex 8\<rparr>],
       ks_publicShares =
         [\<lparr>pub_index = 1, pub_x = toHex (fst (example_g_mul 6)),
            pub_y = toHex (snd (example_g_mul 6))\<rparr>,
          \<lparr>pub_index = 2, pub_x = toHex (fst (example_g_mul 7)),
            pub_y = toHex (snd (example_g_mul 7))\<rparr>,
          \<lparr>pub_index = 3, pub_x = toHex (fst (example_g_mul 8)),
            pub_y = toHex (snd (example_g_mul 8))\<rparr>],
       ks_groupPublicKey = pointToHex (example_g_mul 5),
       ks_threshold = 2,
       ks_total = 3\<rparr>, [])) \<and>
   pointToHex (example_g_mul (interpolateAtZero
       [\<lparr>share_index = 1, share_value = toHex 6\<rparr>, \<lparr>share_index = 3, share_value = toHex 8\<rparr>]))
     = pointToHex (example_g_mul 5) \<and>
   interpolateAtZero [\<lparr>share_index = 3, share_value = toHex 8\<rparr>,
       \<lparr>share_index = 1, share_value = toHex 6\<rparr>, \<lparr>share_index = 2, share_value = toHex 7\<rparr>]
     = interpolateAtZero
       [\<lparr>share_index = 1, share_value = toHex 6\<rparr>, \<lparr>share_index = 3, share_value = toHex 8\<rparr>] \<and>
   combineLoop
       [\<lparr>share_index = 1, share_value = toHex 6\<rparr>, \<lparr>share_index = 3, share_value = toHex 8\<rparr>]
       (calculateLagrangeCoefficients [1, 3]) mod curve_n
     = interpolateAtZero
       [\<lparr>share_index = 1, share_value = toHex 6\<rparr>, \<lparr>share_index = 3, share_value = toHex 8\<rparr>]"
proof -
  let ?ks = "\<lparr>ks_shares = [\<lparr>share_index = 1, share_value = toHex 6\<rparr>,
                    \<lparr>share_index = 2, share_value = toHex 7\<rparr>,
                    \<lparr>share_index = 3, share_value = toHex 8\<rparr>],
       ks_publicShares =
         [\<lparr>pub_index = 1, pub_x = toHex (fst (example_g_mul 6)),
            pub_y = toHex (snd (example_g_mul 6))\<rparr>,
          \<lparr>pub_index = 2, pub_x = toHex (fst (example_g_mul 7)),
            pub_y = toHex (snd (example_g_mul 7))\<rparr>,
          \<lparr>pub_index = 3, pub_x = toHex (fst (example_g_mul 8)),
            pub_y = toHex (snd (example_g_mul 8))\<rparr>],
       ks_groupPublicKey = pointToHex (example_g_mul 5),
       ks_threshold = 2,
       ks_total = 3\<rparr>"
  let ?sel = "[\<lparr>share_index = 1, share_value = toHex 6\<rparr>, \<lparr>share_index = 3, share_value = toHex 8\<rparr>]"
  let ?sel' = "[\<lparr>share_index = 3, share_value = toHex 8\<rparr>,
       \<lparr>share_index = 1, share_value = toHex 6\<rparr>, \<lparr>share_index = 2, share_value = toHex 7\<rparr>]"
  have h1: "(3::int) \<le> 50" by simp
  have h2: "generateKeyShares example_g_mul 3 2 [5, 1] = Some (Inr (?ks, []))"
    by (rule example_keyShares)
  have h3: "set ?sel \<subseteq> set (ks_shares ?ks)" "distinct (map share_index ?sel)"
    "nat 2 \<le> length ?sel" by simp_all
  have h4: "set ?sel' \<subseteq> set (ks_shares ?ks)" "distinct (map share_index ?sel')"
    "nat 2 \<le> length ?sel'" by simp_all
  from shares_reconstruct_group_key [OF h1 h2 h3 h4] h1 h2 show ?thesis by simp
qed

end
